theory Spec2Isabelle
  imports Main
begin

section \<open>Case conversion of js\_utilities (vanilla/utils.py)\<close>

text \<open>
  The development embeds \<^verbatim>\<open>camelize\<close>, \<^verbatim>\<open>decamelize\<close> and \<^verbatim>\<open>_process_keys\<close> of
  \<^verbatim>\<open>src/js_utilities/vanilla/utils.py\<close>, together with the three regular expressions
  they use. A Python string is the list of its code points, as integers. The classes
  of the regular expressions (\<^verbatim>\<open>[A-Z]\<close>, \<^verbatim>\<open>[\-_\s]\<close>) are given for every code
  point. The tables behind \<^verbatim>\<open>str.isupper\<close>, \<^verbatim>\<open>str.isnumeric\<close>, \<^verbatim>\<open>str.lower\<close>,
  \<^verbatim>\<open>str.upper\<close> and \<^verbatim>\<open>\d\<close> are Python's on the code points below 256 and on
  U+0130, U+0178, U+0307, U+039C and U+03BC, a set that lower-casing and upper-casing
  do not leave; any other code point is carried as a symbol without case that is not
  numeric, so the letters and digits of other scripts, the title-case letters among
  them, are outside the tables.
\<close>

subsection \<open>Strings and character classes\<close>

type_synonym ustr = "int list"

definition lit :: "string \<Rightarrow> ustr" where
  \<comment> \<open>the code points of a string literal\<close>
  "lit s = map of_char s"

definition ascii_c :: "int \<Rightarrow> bool" where
  \<comment> \<open>an ASCII character\<close>
  "ascii_c c = (0 \<le> c \<and> c < 128)"

definition ascii :: "ustr \<Rightarrow> bool" where
  \<comment> \<open>an ASCII string\<close>
  "ascii s = list_all ascii_c s"

definition is_AZ :: "int \<Rightarrow> bool" where
  \<comment> \<open>the class \<^verbatim>\<open>[A-Z]\<close>\<close>
  "is_AZ c = (65 \<le> c \<and> c \<le> 90)"

definition is_digit :: "int \<Rightarrow> bool" where
  \<comment> \<open>the class \<^verbatim>\<open>\d\<close>\<close>
  "is_digit c = (48 \<le> c \<and> c \<le> 57)"

definition is_space :: "int \<Rightarrow> bool" where
  \<comment> \<open>the class \<^verbatim>\<open>\s\<close>: U+0009 to U+000D, U+001C to U+0020, U+0085, U+00A0, U+1680,
     U+2000 to U+200A, U+2028, U+2029, U+202F, U+205F and U+3000\<close>
  "is_space c =
     ((9 \<le> c \<and> c \<le> 13) \<or> (28 \<le> c \<and> c \<le> 32) \<or> c = 133 \<or> c = 160 \<or> c = 5760 \<or>
      (8192 \<le> c \<and> c \<le> 8202) \<or> c = 8232 \<or> c = 8233 \<or> c = 8239 \<or> c = 8287 \<or>
      c = 12288)"

definition delim :: "int \<Rightarrow> bool" where
  \<comment> \<open>the class \<^verbatim>\<open>[\-_\s]\<close>\<close>
  "delim c = (c = 45 \<or> c = 95 \<or> is_space c)"

definition word_char :: "int \<Rightarrow> bool" where
  \<comment> \<open>the class \<^verbatim>\<open>[^A-Z\-_\s]\<close>\<close>
  "word_char c = (\<not> is_AZ c \<and> \<not> delim c)"

definition is_upper :: "int \<Rightarrow> bool" where
  \<comment> \<open>the uppercase characters: A to Z, U+00C0 to U+00DE without U+00D7, U+0130, U+0178
     and U+039C\<close>
  "is_upper c =
     ((65 \<le> c \<and> c \<le> 90) \<or> (192 \<le> c \<and> c \<le> 222 \<and> c \<noteq> 215) \<or>
      c = 304 \<or> c = 376 \<or> c = 924)"

definition is_lower :: "int \<Rightarrow> bool" where
  \<comment> \<open>the lowercase characters: a to z, U+00AA, U+00B5, U+00BA, U+00DF to U+00FF without
     U+00F7, and U+03BC\<close>
  "is_lower c =
     ((97 \<le> c \<and> c \<le> 122) \<or> c = 170 \<or> c = 181 \<or> c = 186 \<or>
      (223 \<le> c \<and> c \<le> 255 \<and> c \<noteq> 247) \<or> c = 956)"

definition is_numeric :: "int \<Rightarrow> bool" where
  \<comment> \<open>the numeric characters: 0 to 9, U+00B2, U+00B3, U+00B9, U+00BC to U+00BE\<close>
  "is_numeric c =
     ((48 \<le> c \<and> c \<le> 57) \<or> c = 178 \<or> c = 179 \<or> c = 185 \<or> (188 \<le> c \<and> c \<le> 190))"

definition py_lower_c :: "int \<Rightarrow> ustr" where
  \<comment> \<open>\<^verbatim>\<open>str.lower\<close> of one character; U+0130 gives two code points\<close>
  "py_lower_c c =
     (if (65 \<le> c \<and> c \<le> 90) \<or> (192 \<le> c \<and> c \<le> 222 \<and> c \<noteq> 215) then [c + 32]
      else if c = 304 then [105, 775]
      else if c = 376 then [255]
      else if c = 924 then [956]
      else [c])"

definition py_upper_c :: "int \<Rightarrow> ustr" where
  \<comment> \<open>\<^verbatim>\<open>str.upper\<close> of one character; U+00DF gives two code points\<close>
  "py_upper_c c =
     (if (97 \<le> c \<and> c \<le> 122) \<or> (224 \<le> c \<and> c \<le> 254 \<and> c \<noteq> 247) then [c - 32]
      else if c = 223 then [83, 83]
      else if c = 181 then [924]
      else if c = 255 then [376]
      else if c = 956 then [924]
      else [c])"

subsection \<open>String methods\<close>

definition py_isupper :: "ustr \<Rightarrow> bool" where
  \<comment> \<open>\<^verbatim>\<open>s.isupper()\<close>: at least one uppercase character, and no lowercase character\<close>
  "py_isupper s = (list_ex is_upper s \<and> \<not> list_ex is_lower s)"

definition py_isnumeric :: "ustr \<Rightarrow> bool" where
  \<comment> \<open>\<^verbatim>\<open>s.isnumeric()\<close>: not empty, and every character numeric\<close>
  "py_isnumeric s = (s \<noteq> [] \<and> list_all is_numeric s)"

definition py_lower :: "ustr \<Rightarrow> ustr" where
  \<comment> \<open>\<^verbatim>\<open>s.lower()\<close>\<close>
  "py_lower s = concat (map py_lower_c s)"

definition py_title_c :: "int \<Rightarrow> ustr" where
  \<comment> \<open>the title case of one character: its upper case, but \<^verbatim>\<open>Ss\<close> for U+00DF\<close>
  "py_title_c c = (if c = 223 then [83, 115] else py_upper_c c)"

fun title_from :: "bool \<Rightarrow> ustr \<Rightarrow> ustr" where
  \<comment> \<open>\<^verbatim>\<open>str.title\<close>, which the code applies to runs of the letters A to Z: a cased
     character is put in title case when the one before it is uncased (or there is none)
     and lower-cased otherwise; the flag is "the one before is cased"\<close>
  "title_from prev [] = []"
| "title_from prev (c # cs) =
     (if is_upper c \<or> is_lower c
      then (if prev then py_lower_c c else py_title_c c) @ title_from True cs
      else c # title_from False cs)"

definition py_title :: "ustr \<Rightarrow> ustr" where
  "py_title s = title_from False s"

fun join :: "ustr \<Rightarrow> ustr list \<Rightarrow> ustr" where
  \<comment> \<open>\<^verbatim>\<open>sep.join(xs)\<close>\<close>
  "join sep [] = []"
| "join sep [x] = x"
| "join sep (x # y # ys) = x @ sep @ join sep (y # ys)"

subsection \<open>The regular expressions\<close>

text \<open>
  \<^verbatim>\<open>UNDERSCORE_RE = (?<=[^\-_\s])[\-_\s]+[^\-_\s]\<close>, substituted by the upper-cased last
  character of the match (one or more characters). \<^verbatim>\<open>re.sub\<close> scans from the left; \<open>prev\<close> is the character
  before the position (of the subject string, as the look-behind reads it), \<open>None\<close> at
  the start. At a delimiter that follows a non-delimiter the greedy run of delimiters is
  taken; the match succeeds when a character follows the run (it is a non-delimiter),
  and the scan goes on after that character. Without a match the character is copied
  and the scan moves one position.
\<close>

definition after_word :: "int option \<Rightarrow> bool" where
  \<comment> \<open>the look-behind \<^verbatim>\<open>(?<=[^\-_\s])\<close>: there is a character before, and it is no delimiter\<close>
  "after_word prev = (case prev of None \<Rightarrow> False | Some p \<Rightarrow> \<not> delim p)"

function underscore_sub :: "int option \<Rightarrow> ustr \<Rightarrow> ustr" where
  "underscore_sub prev [] = []"
| "underscore_sub prev (c # cs) =
     (if after_word prev \<and> delim c
      then (case dropWhile delim (c # cs) of
              [] \<Rightarrow> c # underscore_sub (Some c) cs
            | x # xs \<Rightarrow> py_upper_c x @ underscore_sub (Some x) xs)
      else c # underscore_sub (Some c) cs)"
  by pat_completeness auto
termination
proof (relation "measure (\<lambda>(p, s). length s)")
  show "wf (measure (\<lambda>(p, s). length s))" by simp
next
  fix prev :: "int option" and c :: int and cs :: ustr
  show "((Some c, cs), (prev, c # cs)) \<in> measure (\<lambda>(p, s). length s)" by simp
next
  fix prev :: "int option" and c :: int and cs :: ustr and x xs
  assume "dropWhile delim (c # cs) = x # xs"
  then have "length (x # xs) \<le> length (c # cs)"
    by (metis length_dropWhile_le)
  then show "((Some x, xs), (prev, c # cs)) \<in> measure (\<lambda>(p, s). length s)" by simp
next
  fix prev :: "int option" and c :: int and cs :: ustr
  show "((Some c, cs), (prev, c # cs)) \<in> measure (\<lambda>(p, s). length s)" by simp
qed

subsection \<open>camelize on a string\<close>

definition lower_first :: "ustr \<Rightarrow> ustr" where
  \<comment> \<open>\<^verbatim>\<open>if len(s) != 0 and not s[:2].isupper(): s = s[0].lower() + s[1:]\<close>\<close>
  "lower_first s =
     (case s of
        [] \<Rightarrow> []
      | c # cs \<Rightarrow> if \<not> py_isupper (take 2 s) then py_lower_c c @ cs else s)"

definition camelize_str :: "ustr \<Rightarrow> ustr" where
  \<comment> \<open>the string branch of \<^verbatim>\<open>camelize\<close>\<close>
  "camelize_str s =
     (if py_isupper s \<or> py_isnumeric s then s
      else underscore_sub None (lower_first s))"


definition strip_delims :: "ustr \<Rightarrow> ustr" where
  \<comment> \<open>a string without its leading and its trailing run of delimiters\<close>
  "strip_delims t = rev (dropWhile delim (rev (dropWhile delim t)))"

definition tail_shape :: "ustr \<Rightarrow> bool" where
  \<comment> \<open>non-delimiters, then delimiters only\<close>
  "tail_shape t = list_all delim (dropWhile (\<lambda>c. \<not> delim c) t)"

definition shape :: "ustr \<Rightarrow> bool" where
  \<comment> \<open>delimiters, then non-delimiters, then delimiters only\<close>
  "shape t = tail_shape (dropWhile delim t)"

subsection \<open>decamelize on a string\<close>

text \<open>
  \<^verbatim>\<open>ACRONYM_RE = ([A-Z]+)$|([A-Z]+)(?=[A-Z\d])\<close>, substituted by the match in title
  case. At an uppercase letter the greedy run of uppercase letters is taken. The first
  alternative matches the whole run when the string ends after it (\<^verbatim>\<open>$\<close> also holds
  before a final newline); the second matches the whole run when a digit follows, and
  otherwise, after giving back one letter, the run without its last letter, when that
  leaves a letter. After a match the scan goes on behind it; without one the letter is
  copied.
\<close>

definition whole_run :: "ustr \<Rightarrow> bool" where
  \<comment> \<open>what follows a maximal run lets the run match as a whole: the end of the string,
     a final newline, or a digit\<close>
  "whole_run rest =
     (case rest of
        [] \<Rightarrow> True
      | d # ds \<Rightarrow> (d = 10 \<and> ds = []) \<or> is_digit d)"

function acronym_sub :: "ustr \<Rightarrow> ustr" where
  "acronym_sub [] = []"
| "acronym_sub (c # cs) =
     (if is_AZ c
      then (if whole_run (dropWhile is_AZ cs)
            then py_title (c # takeWhile is_AZ cs) @ acronym_sub (dropWhile is_AZ cs)
            else if takeWhile is_AZ cs \<noteq> []
            then py_title (butlast (c # takeWhile is_AZ cs)) @
                 acronym_sub (last (c # takeWhile is_AZ cs) # dropWhile is_AZ cs)
            else c # acronym_sub cs)
      else c # acronym_sub cs)"
  by pat_completeness auto
termination
proof (relation "measure length")
  show "wf (measure length)" by simp
next
  fix c :: int and cs :: ustr
  have "length (dropWhile is_AZ cs) \<le> length cs" by (rule length_dropWhile_le)
  then show "(dropWhile is_AZ cs, c # cs) \<in> measure length" by simp
next
  fix c :: int and cs :: ustr
  assume "takeWhile is_AZ cs \<noteq> []"
  then have "0 < length (takeWhile is_AZ cs)" by simp
  moreover have "length (takeWhile is_AZ cs) + length (dropWhile is_AZ cs) = length cs"
    by (metis length_append takeWhile_dropWhile_id)
  ultimately have "length (dropWhile is_AZ cs) < length cs" by linarith
  then show "(last (c # takeWhile is_AZ cs) # dropWhile is_AZ cs, c # cs) \<in> measure length"
    by simp
next
  fix c :: int and cs :: ustr
  show "(cs, c # cs) \<in> measure length" by simp
next
  fix c :: int and cs :: ustr
  show "(cs, c # cs) \<in> measure length" by simp
qed

text \<open>
  \<^verbatim>\<open>SPLIT_RE = ([\-_\s]*[A-Z]+?[^A-Z\-_\s]*[\-_\s]*)\<close> and \<^verbatim>\<open>SPLIT_RE.split\<close>. A match
  starts where the greedy run of delimiters is followed by an uppercase letter; the lazy
  \<^verbatim>\<open>[A-Z]+?\<close> takes that one letter, then come the greedy run of \<^verbatim>\<open>[^A-Z\-_\s]\<close> and
  the greedy run of delimiters. With its one group, \<^verbatim>\<open>split\<close> returns the text before
  each match, the match, and at last the text behind the last match; \<open>acc\<close> is the
  text since the last match.
\<close>

function split_re :: "ustr \<Rightarrow> ustr \<Rightarrow> ustr list" where
  "split_re acc [] = [acc]"
| "split_re acc (c # cs) =
     (case dropWhile delim (c # cs) of
        [] \<Rightarrow> split_re (acc @ [c]) cs
      | u # r \<Rightarrow>
          if is_AZ u
          then acc #
               (takeWhile delim (c # cs) @ u # takeWhile word_char r @
                  takeWhile delim (dropWhile word_char r)) #
               split_re [] (dropWhile delim (dropWhile word_char r))
          else split_re (acc @ [c]) cs)"
  by pat_completeness auto
termination
proof (relation "measure (\<lambda>(acc, s). length s)")
  show "wf (measure (\<lambda>(acc, s). length s))" by simp
next
  fix acc :: ustr and c :: int and cs :: ustr
  show "((acc @ [c], cs), (acc, c # cs)) \<in> measure (\<lambda>(acc, s). length s)" by simp
next
  fix acc :: ustr and c :: int and cs :: ustr and u r
  assume "dropWhile delim (c # cs) = u # r"
  then have "length (u # r) \<le> length (c # cs)" by (metis length_dropWhile_le)
  moreover have "length (dropWhile delim (dropWhile word_char r)) \<le> length r"
    by (meson length_dropWhile_le le_trans)
  ultimately show "(([], dropWhile delim (dropWhile word_char r)), (acc, c # cs))
      \<in> measure (\<lambda>(acc, s). length s)" by simp
next
  fix acc :: ustr and c :: int and cs :: ustr
  show "((acc @ [c], cs), (acc, c # cs)) \<in> measure (\<lambda>(acc, s). length s)" by simp
qed

definition decamelize_str :: "ustr \<Rightarrow> ustr" where
  \<comment> \<open>the string branch of \<^verbatim>\<open>decamelize\<close>\<close>
  "decamelize_str s =
     (if py_isupper s \<or> py_isnumeric s then s
      else py_lower (join [95] (filter (\<lambda>p. p \<noteq> []) (split_re [] (acronym_sub s)))))"


subsection \<open>Values, and the walk over lists and mappings\<close>

text \<open>
  The values the two converters are applied to: \<^verbatim>\<open>None\<close>, booleans, integers,
  strings, lists, and mappings. A mapping is the list of its items in insertion order.
  Its keys are hashable values, so never a list or a mapping.
\<close>

datatype pyval =
    PNone
  | PBool bool
  | PInt int
  | PStr ustr
  | PList "pyval list"
  | PDict "(pyval \<times> pyval) list"

fun truthy :: "pyval \<Rightarrow> bool" where
  \<comment> \<open>the truth value Python gives a value\<close>
  "truthy PNone = False"
| "truthy (PBool b) = b"
| "truthy (PInt i) = (i \<noteq> 0)"
| "truthy (PStr s) = (s \<noteq> [])"
| "truthy (PList xs) = (xs \<noteq> [])"
| "truthy (PDict kvs) = (kvs \<noteq> [])"

function digits :: "nat \<Rightarrow> ustr" where
  \<comment> \<open>the decimal digits of a natural number\<close>
  "digits n =
     (if n < 10 then [48 + int n]
      else digits (n div 10) @ [48 + int (n mod 10)])"
  by pat_completeness auto
termination
  by (relation "measure id") auto

fun py_str :: "pyval \<Rightarrow> ustr" where
  \<comment> \<open>\<^verbatim>\<open>str(v)\<close> of a value that is no list and no mapping (the converters call
     \<^verbatim>\<open>str\<close> on no other)\<close>
  "py_str PNone = lit ''None''"
| "py_str (PBool b) = (if b then lit ''True'' else lit ''False'')"
| "py_str (PInt i) = (if i < 0 then 45 # digits (nat (- i)) else digits (nat i))"
| "py_str (PStr s) = s"

fun key_norm :: "pyval \<Rightarrow> pyval" where
  \<comment> \<open>as keys, \<^verbatim>\<open>True\<close> is \<^verbatim>\<open>1\<close> and \<^verbatim>\<open>False\<close> is \<^verbatim>\<open>0\<close>\<close>
  "key_norm (PBool b) = PInt (if b then 1 else 0)"
| "key_norm v = v"

definition key_eq :: "pyval \<Rightarrow> pyval \<Rightarrow> bool" where
  \<comment> \<open>two keys address the same entry of a mapping\<close>
  "key_eq a b = (key_norm a = key_norm b)"

fun dict_set :: "(pyval \<times> pyval) list \<Rightarrow> pyval \<Rightarrow> pyval \<Rightarrow> (pyval \<times> pyval) list" where
  \<comment> \<open>\<^verbatim>\<open>d[k] = v\<close>: an entry with an equal key keeps its place and its key and takes the
     value, a new key is appended\<close>
  "dict_set [] k v = [(k, v)]"
| "dict_set ((k', v') # d) k v =
     (if key_eq k' k then (k', v) # d else (k', v') # dict_set d k v)"

definition dict_of :: "(pyval \<times> pyval) list \<Rightarrow> (pyval \<times> pyval) list" where
  \<comment> \<open>the mapping a dict comprehension builds from its items, in their order\<close>
  "dict_of items = foldl (\<lambda>d (k, v). dict_set d k v) [] items"

fun process_keys :: "(pyval \<Rightarrow> pyval) \<Rightarrow> pyval \<Rightarrow> pyval" where
  \<comment> \<open>\<^verbatim>\<open>_process_keys(str_or_iter, fn)\<close>\<close>
  "process_keys fn (PList xs) = PList (map (process_keys fn) xs)"
| "process_keys fn (PDict kvs) =
     PDict (dict_of (map (\<lambda>(k, v). (fn k, process_keys fn v)) kvs))"
| "process_keys fn v = v"

fun keys_in :: "pyval \<Rightarrow> pyval set" where
  \<comment> \<open>the keys of the mappings of a value, at every depth: what the walk applies
     \<open>fn\<close> to\<close>
  "keys_in (PList xs) = (\<Union>x\<in>set xs. keys_in x)"
| "keys_in (PDict kvs) = (\<Union>(k, v)\<in>set kvs. insert k (keys_in v))"
| "keys_in v = {}"

lemma process_keys_cong [fundef_cong]:
  "v = w \<Longrightarrow> (\<And>k. k \<in> keys_in w \<Longrightarrow> f k = g k) \<Longrightarrow> process_keys f v = process_keys g w"
proof (induction g w arbitrary: v rule: process_keys.induct)
  case (1 fn xs)
  then show ?case by (auto intro!: map_cong)
next
  case (2 fn kvs)
  have h: "map (\<lambda>(k, v). (f k, process_keys f v)) kvs =
           map (\<lambda>(k, v). (fn k, process_keys fn v)) kvs"
  proof (rule map_cong[OF refl])
    fix kv assume kv: "kv \<in> set kvs"
    obtain k v where e: "kv = (k, v)" by (cases kv)
    have "f k = fn k" using 2(3) kv e by force
    moreover have "process_keys f v = process_keys fn v"
      using 2(1)[of kv k v v] 2(3) kv e by force
    ultimately show "(case kv of (k, v) \<Rightarrow> (f k, process_keys f v)) =
                     (case kv of (k, v) \<Rightarrow> (fn k, process_keys fn v))"
      using e by simp
  qed
  show ?case unfolding 2(2) by (simp only: process_keys.simps h)
qed simp_all

lemma keys_in_size: "k \<in> keys_in v \<Longrightarrow> size k < size v"
proof (induction v rule: keys_in.induct)
  case (1 xs)
  then obtain x where x: "x \<in> set xs" "k \<in> keys_in x" by auto
  then have "size k < size x" using 1 by blast
  moreover have "size x \<le> size_list size xs" using x(1) by (simp add: size_list_estimation')
  ultimately show ?case by simp
next
  case (2 kvs)
  then obtain k' v' where kv: "(k', v') \<in> set kvs" "k = k' \<or> k \<in> keys_in v'" by auto
  have le: "size_prod size size (k', v') \<le> size_list (size_prod size size) kvs"
    using kv(1) by (simp add: size_list_estimation')
  from kv(2) have "size k < size_prod size size (k', v')"
  proof
    assume "k = k'" then show ?thesis by simp
  next
    assume "k \<in> keys_in v'"
    then have "size k < size v'" using 2 kv(1) by blast
    then show ?thesis by simp
  qed
  then show ?case using le by simp
qed simp_all

definition is_container :: "pyval \<Rightarrow> bool" where
  \<comment> \<open>\<^verbatim>\<open>isinstance(str_or_iter, (list, Mapping))\<close>\<close>
  "is_container v = (case v of PList xs \<Rightarrow> True | PDict kvs \<Rightarrow> True | _ \<Rightarrow> False)"

definition text_of :: "pyval \<Rightarrow> ustr" where
  \<comment> \<open>\<^verbatim>\<open>str(str_or_iter if str_or_iter else '')\<close>\<close>
  "text_of v = py_str (if truthy v then v else PStr [])"

function camelize :: "pyval \<Rightarrow> pyval" where
  "camelize v =
     (if is_container v then process_keys camelize v
      else if py_isupper (text_of v) \<or> py_isnumeric (text_of v) then v
      else PStr (underscore_sub None (lower_first (text_of v))))"
  by pat_completeness auto
termination
  by (relation "measure size") (auto dest: keys_in_size)

function decamelize :: "pyval \<Rightarrow> pyval" where
  "decamelize v =
     (if is_container v then process_keys decamelize v
      else if py_isupper (text_of v) \<or> py_isnumeric (text_of v) then v
      else PStr (py_lower (join [95]
             (filter (\<lambda>p. p \<noteq> []) (split_re [] (acronym_sub (text_of v)))))))"
  by pat_completeness auto
termination
  by (relation "measure size") (auto dest: keys_in_size)


fun mapping_free :: "pyval \<Rightarrow> bool" where
  \<comment> \<open>a value that is no mapping and holds none, at any depth of its lists\<close>
  "mapping_free (PList xs) = (\<forall>x\<in>set xs. mapping_free x)"
| "mapping_free (PDict kvs) = False"
| "mapping_free v = True"

section \<open>Properties\<close>

declare camelize.simps [simp del] decamelize.simps [simp del] digits.simps [simp del]

subsection \<open>Characters\<close>

lemma AZ_upper: "is_AZ c \<Longrightarrow> is_upper c"
  by (simp add: is_AZ_def is_upper_def)

lemma upper_not_lower: "is_upper c \<Longrightarrow> \<not> is_lower c"
  by (auto simp: is_upper_def is_lower_def)

lemma AZ_not_delim: "is_AZ c \<Longrightarrow> \<not> delim c"
  by (auto simp: is_AZ_def delim_def is_space_def)

lemma digit_numeric: "is_digit c \<Longrightarrow> is_numeric c"
  by (simp add: is_digit_def is_numeric_def)

lemma numeric_not_delim: "is_numeric c \<Longrightarrow> \<not> delim c"
  by (auto simp: is_numeric_def delim_def is_space_def)

lemma upper_c_ne: "py_upper_c c \<noteq> []"
  by (simp add: py_upper_c_def)

lemma lower_c_ne: "py_lower_c c \<noteq> []"
  by (simp add: py_lower_c_def)

lemma delim_cases:
  "delim c \<Longrightarrow> (9 \<le> c \<and> c \<le> 45) \<or> c = 95 \<or> c = 133 \<or> c = 160 \<or> 5760 \<le> c"
  unfolding delim_def is_space_def by linarith

lemma upper_c_cases:
  "py_upper_c c = [c] \<or>
   (\<not> (9 \<le> c \<and> c \<le> 45) \<and> c \<noteq> 95 \<and> c \<noteq> 133 \<and> c \<noteq> 160 \<and> c < 5760 \<and>
    (\<forall>u\<in>set (py_upper_c c). 65 \<le> u \<and> u \<le> 924 \<and> u \<noteq> 95 \<and> u \<noteq> 133 \<and> u \<noteq> 160))"
  unfolding py_upper_c_def by (simp; linarith)

lemma lower_c_cases:
  "py_lower_c c = [c] \<or>
   (\<not> (9 \<le> c \<and> c \<le> 45) \<and> c \<noteq> 95 \<and> c \<noteq> 133 \<and> c \<noteq> 160 \<and> c < 5760 \<and>
    (\<forall>u\<in>set (py_lower_c c). 97 \<le> u \<and> u \<le> 956 \<and> u \<noteq> 133 \<and> u \<noteq> 160))"
  unfolding py_lower_c_def by (simp; linarith)

lemma upper_c_delim: "u \<in> set (py_upper_c c) \<Longrightarrow> delim u = delim c"
  using upper_c_cases[of c] delim_cases[of c] delim_cases[of u] by fastforce

lemma lower_c_delim: "u \<in> set (py_lower_c c) \<Longrightarrow> delim u = delim c"
  using lower_c_cases[of c] delim_cases[of c] delim_cases[of u] by fastforce

lemma lower_c_not_AZ: "u \<in> set (py_lower_c c) \<Longrightarrow> \<not> is_AZ u"
  by (auto simp: py_lower_c_def is_AZ_def split: if_splits)

lemma ascii_upper_c:
  "ascii_c c \<Longrightarrow> \<exists>u. py_upper_c c = [u] \<and> ascii_c u \<and> \<not> is_lower u"
  by (auto simp: ascii_c_def py_upper_c_def is_lower_def)

lemma ascii_lower_c:
  "ascii_c c \<Longrightarrow> \<exists>l. py_lower_c c = [l] \<and> ascii_c l \<and> \<not> is_upper l \<and> py_lower_c l = [l]"
  by (auto simp: ascii_c_def py_lower_c_def is_upper_def)

lemma ascii_upper_AZ: "ascii_c c \<Longrightarrow> is_upper c = is_AZ c"
  by (auto simp: ascii_c_def is_upper_def is_AZ_def)

lemma lower_c_id: "\<not> is_upper c \<Longrightarrow> py_lower_c c = [c]"
  by (auto simp: py_lower_c_def is_upper_def)

subsection \<open>The substitution of \<^verbatim>\<open>UNDERSCORE_RE\<close>\<close>

lemma usub_copy:
  "\<not> (after_word p \<and> delim c) \<Longrightarrow> underscore_sub p (c # cs) = c # underscore_sub (Some c) cs"
  by auto

lemma usub_trail:
  "dropWhile delim cs = [] \<Longrightarrow> underscore_sub p (c # cs) = c # underscore_sub (Some c) cs"
  by (auto simp del: dropWhile_eq_Nil_conv)

lemma usub_match:
  "after_word p \<Longrightarrow> delim c \<Longrightarrow> dropWhile delim cs = x # xs \<Longrightarrow>
     underscore_sub p (c # cs) = py_upper_c x @ underscore_sub (Some x) xs"
  by simp

lemma usub_cases [case_names Nil copy trail match]:
  assumes "s = [] \<Longrightarrow> P"
    and "\<And>c cs. s = c # cs \<Longrightarrow> \<not> (after_word p \<and> delim c) \<Longrightarrow> P"
    and "\<And>c cs. s = c # cs \<Longrightarrow> after_word p \<Longrightarrow> delim c \<Longrightarrow> dropWhile delim cs = [] \<Longrightarrow> P"
    and "\<And>c cs x xs. s = c # cs \<Longrightarrow> after_word p \<Longrightarrow> delim c \<Longrightarrow> dropWhile delim cs = x # xs \<Longrightarrow> P"
  shows P
proof (cases s)
  case Nil
  then show ?thesis using assms(1) by simp
next
  case (Cons c cs)
  then show ?thesis using assms(2,3,4)
    by (cases "dropWhile delim cs") blast+
qed

declare underscore_sub.simps(2) [simp del]

lemma dropWhile_hd: "dropWhile P xs = y # ys \<Longrightarrow> \<not> P y"
  by (induction xs) (auto split: if_splits)

lemma dropWhile_takeWhile_app: "dropWhile P (takeWhile P xs @ ys) = dropWhile P ys"
  by (induction xs) auto

lemma tail_shape_Cons: "tail_shape (c # t) = (if delim c then list_all delim t else tail_shape t)"
  by (simp add: tail_shape_def)

lemma tail_shape_app_nd:
  "\<forall>u\<in>set l. \<not> delim u \<Longrightarrow> tail_shape (l @ t) = tail_shape t"
  by (induction l) (simp_all add: tail_shape_Cons)

lemma usub_all_delim: "list_all delim s \<Longrightarrow> underscore_sub p s = s"
proof (induction s arbitrary: p)
  case Nil
  then show ?case by simp
next
  case (Cons c cs)
  then have "dropWhile delim cs = []" by (simp add: list_all_iff)
  then show ?case using Cons by (simp add: usub_trail)
qed

lemma usub_tail_shape: "after_word p \<Longrightarrow> tail_shape (underscore_sub p s)"
proof (induction p s rule: underscore_sub.induct)
  case (1 prev)
  then show ?case by (simp add: tail_shape_def)
next
  case (2 prev c cs)
  show ?case
  proof (cases "c # cs" rule: usub_cases[of _ _ prev])
    case Nil
    then show ?thesis by simp
  next
    case (copy c' cs')
    then have nd: "\<not> delim c" and eq: "c' = c" "cs' = cs" using 2(4) by auto
    then have "tail_shape (underscore_sub (Some c) cs)"
      using 2(3) copy by (simp add: after_word_def)
    then show ?thesis using nd copy by (simp add: usub_copy tail_shape_Cons)
  next
    case (trail c' cs')
    then have "list_all delim (c # cs)" by (auto simp: list_all_iff)
    then show ?thesis using usub_all_delim[of "c # cs" prev]
      by (simp add: tail_shape_Cons)
  next
    case (match c' cs' x xs)
    then have dw: "dropWhile delim (c # cs) = x # xs" by simp
    then have nd: "\<not> delim x" by (rule dropWhile_hd)
    then have "tail_shape (underscore_sub (Some x) xs)"
      using 2(2)[OF _ dw] match by (simp add: after_word_def)
    moreover have "\<forall>u\<in>set (py_upper_c x). \<not> delim u"
      using nd by (simp add: upper_c_delim)
    ultimately show ?thesis using match
      by (simp add: usub_match tail_shape_app_nd)
  qed
qed

lemma usub_fix_tail: "after_word p \<Longrightarrow> tail_shape t \<Longrightarrow> underscore_sub p t = t"
proof (induction t arbitrary: p)
  case Nil
  then show ?case by simp
next
  case (Cons c cs)
  show ?case
  proof (cases "delim c")
    case True
    then have "list_all delim (c # cs)" using Cons.prems(2) by (simp add: tail_shape_Cons)
    then show ?thesis by (rule usub_all_delim)
  next
    case False
    then have "tail_shape cs" using Cons.prems(2) by (simp add: tail_shape_Cons)
    moreover have "after_word (Some c)" using False by (simp add: after_word_def)
    ultimately have "underscore_sub (Some c) cs = cs" by (rule Cons.IH[rotated])
    then show ?thesis using False by (simp add: usub_copy)
  qed
qed

lemma usub_lead:
  "\<not> after_word p \<Longrightarrow>
     underscore_sub p s =
       takeWhile delim s @
       (case dropWhile delim s of [] \<Rightarrow> [] | c # cs \<Rightarrow> c # underscore_sub (Some c) cs)"
proof (induction s arbitrary: p)
  case Nil
  then show ?case by simp
next
  case (Cons c cs)
  show ?case
  proof (cases "delim c")
    case True
    then have "\<not> after_word (Some c)" by (simp add: after_word_def)
    then show ?thesis using Cons.IH[of "Some c"] Cons.prems True by (simp add: usub_copy)
  next
    case False
    then show ?thesis using Cons.prems by (simp add: usub_copy)
  qed
qed

lemma usub_shape: "\<not> after_word p \<Longrightarrow> shape (underscore_sub p s)"
proof -
  assume p: "\<not> after_word p"
  show ?thesis
  proof (cases "dropWhile delim s")
    case Nil
    have "underscore_sub p s =
       takeWhile delim s @
       (case dropWhile delim s of [] \<Rightarrow> [] | c # cs \<Rightarrow> c # underscore_sub (Some c) cs)"
      by (rule usub_lead[OF p])
    then have eq: "underscore_sub p s = takeWhile delim s"
      by (simp only: Nil list.case append_Nil2)
    have dw: "dropWhile delim (takeWhile delim s) = []"
      by (auto dest: set_takeWhileD)
    show ?thesis unfolding shape_def tail_shape_def eq dw by simp
  next
    case (Cons c cs)
    then have nd: "\<not> delim c" by (rule dropWhile_hd)
    have eq: "underscore_sub p s = takeWhile delim s @ c # underscore_sub (Some c) cs"
      using usub_lead[OF p, of s] Cons by simp
    have "dropWhile delim (takeWhile delim s @ c # underscore_sub (Some c) cs)
            = c # underscore_sub (Some c) cs"
      using nd by (simp add: dropWhile_takeWhile_app)
    moreover have "tail_shape (underscore_sub (Some c) cs)"
      using nd by (simp add: usub_tail_shape after_word_def)
    ultimately show ?thesis using nd eq by (simp add: shape_def tail_shape_Cons)
  qed
qed

lemma usub_fix: "\<not> after_word p \<Longrightarrow> shape t \<Longrightarrow> underscore_sub p t = t"
proof -
  assume p: "\<not> after_word p" and sh: "shape t"
  show ?thesis
  proof (cases "dropWhile delim t")
    case Nil
    then have "list_all delim t" by (simp add: list_all_iff)
    then show ?thesis by (rule usub_all_delim)
  next
    case (Cons c cs)
    then have nd: "\<not> delim c" by (rule dropWhile_hd)
    then have "tail_shape cs" using sh Cons by (simp add: shape_def tail_shape_Cons)
    then have "underscore_sub (Some c) cs = cs"
      using nd by (simp add: usub_fix_tail after_word_def)
    then have "underscore_sub p t = takeWhile delim t @ dropWhile delim t"
      using usub_lead[OF p, of t] Cons by simp
    then show ?thesis by simp
  qed
qed

lemma usub_idem: "underscore_sub None (underscore_sub None s) = underscore_sub None s"
  by (rule usub_fix) (simp_all add: usub_shape after_word_def)

lemma dropWhile_all: "\<forall>x\<in>set xs. P x \<Longrightarrow> dropWhile P (xs @ ys) = dropWhile P ys"
  by (induction xs) auto

lemma dropWhile_rev_none: "\<forall>x\<in>set W. \<not> P x \<Longrightarrow> dropWhile P (rev W) = rev W"
  by (cases W rule: rev_cases) auto

lemma strip_right_aux:
  assumes D: "\<forall>x\<in>set D. P x" and W: "\<forall>x\<in>set W. \<not> P x"
  shows "rev (dropWhile P (rev (W @ D))) = W"
proof -
  have "dropWhile P (rev D @ rev W) = dropWhile P (rev W)"
    by (rule dropWhile_all) (use D in simp)
  then show ?thesis using dropWhile_rev_none[OF W] by simp
qed

lemma tail_shape_strip:
  assumes "tail_shape u"
  shows "rev (dropWhile delim (rev u)) = takeWhile (\<lambda>c. \<not> delim c) u"
proof -
  have D: "\<forall>x\<in>set (dropWhile (\<lambda>c. \<not> delim c) u). delim x"
    using assms unfolding tail_shape_def list_all_iff .
  have W: "\<forall>x\<in>set (takeWhile (\<lambda>c. \<not> delim c) u). \<not> delim x"
  proof (rule ballI)
    fix x assume "x \<in> set (takeWhile (\<lambda>c. \<not> delim c) u)"
    then show "\<not> delim x" by (rule set_takeWhileD[THEN conjunct2])
  qed
  have "rev (dropWhile delim (rev (takeWhile (\<lambda>c. \<not> delim c) u @ dropWhile (\<lambda>c. \<not> delim c) u)))
          = takeWhile (\<lambda>c. \<not> delim c) u"
    using D W by (rule strip_right_aux)
  then show ?thesis by (simp only: takeWhile_dropWhile_id)
qed

lemma shape_strip: "shape t \<Longrightarrow> list_all (\<lambda>c. \<not> delim c) (strip_delims t)"
proof -
  assume "shape t"
  then have "strip_delims t = takeWhile (\<lambda>c. \<not> delim c) (dropWhile delim t)"
    unfolding shape_def strip_delims_def by (rule tail_shape_strip)
  then show ?thesis by (auto simp: list_all_iff dest: set_takeWhileD)
qed

subsection \<open>camelize on a string\<close>

lemma usub_None_Cons: "underscore_sub None (c # cs) = c # underscore_sub (Some c) cs"
  by (rule usub_copy) (simp add: after_word_def)




lemma lower_first_Cons:
  "lower_first (c # cs) = (if py_isupper (take 2 (c # cs)) then [c] else py_lower_c c) @ cs"
  by (simp add: lower_first_def)

lemma set_strip_delims: "set (strip_delims t) \<subseteq> set t"
proof -
  have "set (strip_delims t) \<subseteq> set (dropWhile delim t)"
    unfolding strip_delims_def using set_dropWhileD[of _ delim "rev (dropWhile delim t)"] by auto
  also have "\<dots> \<subseteq> set t" using set_dropWhileD[of _ delim t] by auto
  finally show ?thesis .
qed

lemma numeric_no_delim: "py_isnumeric s \<Longrightarrow> x \<in> set s \<Longrightarrow> \<not> delim x"
  by (auto simp: py_isnumeric_def list_all_iff dest: numeric_not_delim)

lemma camelize_str_strip:
  assumes "\<not> py_isupper s"
  shows "list_all (\<lambda>c. \<not> delim c) (strip_delims (camelize_str s))"
proof (cases "py_isnumeric s")
  case True
  then have "camelize_str s = s" by (simp add: camelize_str_def)
  then show ?thesis using set_strip_delims[of s] numeric_no_delim[OF True]
    by (auto simp: list_all_iff)
next
  case False
  then have "camelize_str s = underscore_sub None (lower_first s)"
    using assms by (simp add: camelize_str_def)
  moreover have "shape (underscore_sub None (lower_first s))"
    by (rule usub_shape) (simp add: after_word_def)
  ultimately show ?thesis by (simp add: shape_strip)
qed

lemma isupper_take2: "py_isupper (take 2 (c # cs)) =
   ((is_upper c \<or> (cs \<noteq> [] \<and> is_upper (hd cs))) \<and> \<not> is_lower c \<and>
    (cs = [] \<or> \<not> is_lower (hd cs)))"
  by (cases cs) (auto simp: py_isupper_def)

subsection \<open>The delimiters of a camelized string\<close>

lemma last_nd_app:
  "l \<noteq> [] \<Longrightarrow> \<forall>u\<in>set l. \<not> delim u \<Longrightarrow> (t \<noteq> [] \<Longrightarrow> \<not> delim (last t)) \<Longrightarrow>
     l @ t \<noteq> [] \<and> \<not> delim (last (l @ t))"
  by (cases "t = []") auto

lemma usub_last:
  "s \<noteq> [] \<Longrightarrow> \<not> delim (last s) \<Longrightarrow>
     underscore_sub p s \<noteq> [] \<and> \<not> delim (last (underscore_sub p s))"
proof (induction p s rule: underscore_sub.induct)
  case (1 prev)
  then show ?case by simp
next
  case (2 prev c cs)
  show ?case
  proof (cases "c # cs" rule: usub_cases[of _ _ prev])
    case Nil
    then show ?thesis by simp
  next
    case (copy c' cs')
    then have e: "underscore_sub prev (c # cs) = c # underscore_sub (Some c) cs"
      by (simp add: usub_copy)
    show ?thesis
    proof (cases "cs = []")
      case True
      then show ?thesis using 2(5) e by simp
    next
      case False
      then have "underscore_sub (Some c) cs \<noteq> [] \<and> \<not> delim (last (underscore_sub (Some c) cs))"
        using 2(3) 2(5) copy by simp
      then show ?thesis using e by simp
    qed
  next
    case (trail c' cs')
    then have "\<forall>x\<in>set (c # cs). delim x" by auto
    moreover have "last (c # cs) \<in> set (c # cs)" by (rule last_in_set) simp
    ultimately show ?thesis using 2(5) by blast
  next
    case (match c' cs' x xs)
    then have dw: "dropWhile delim (c # cs) = x # xs" by simp
    have nd: "\<not> delim x" using dw by (rule dropWhile_hd)
    have e: "underscore_sub prev (c # cs) = py_upper_c x @ underscore_sub (Some x) xs"
      using match by (simp add: usub_match)
    have u: "\<forall>u\<in>set (py_upper_c x). \<not> delim u" using nd by (simp add: upper_c_delim)
    have r: "\<not> delim (last (underscore_sub (Some x) xs))" if "underscore_sub (Some x) xs \<noteq> []"
    proof (cases "xs = []")
      case True
      then show ?thesis using that by simp
    next
      case False
      have "last (x # xs) = last (c # cs)"
        by (metis dw last_appendR list.distinct(1) takeWhile_dropWhile_id)
      then have "\<not> delim (last xs)" using False 2(5) by simp
      then show ?thesis using 2(2)[OF _ dw] match False by simp
    qed
    show ?thesis unfolding e using upper_c_ne u r by (intro last_nd_app) auto
  qed
qed

lemma strip_delims_id:
  assumes "t \<noteq> []" "\<not> delim (hd t)" "\<not> delim (last t)"
  shows "strip_delims t = t"
proof -
  have a: "dropWhile delim t = t" using assms(1,2) by (cases t) simp_all
  have "dropWhile delim (rev t) = rev t"
    using assms(1,3) by (cases t rule: rev_cases) simp_all
  then show ?thesis by (simp add: strip_delims_def a)
qed

lemma lower_first_hd_last:
  assumes "s \<noteq> []" "\<not> delim (hd s)" "\<not> delim (last s)"
  shows "lower_first s \<noteq> [] \<and> \<not> delim (hd (lower_first s)) \<and> \<not> delim (last (lower_first s))"
proof -
  obtain c cs where s: "s = c # cs" using assms(1) by (cases s) auto
  let ?l = "if py_isupper (take 2 (c # cs)) then [c] else py_lower_c c"
  have l: "?l \<noteq> []" "\<forall>u\<in>set ?l. \<not> delim u"
    using assms(2) s by (auto simp: lower_c_ne lower_c_delim)
  have e: "lower_first s = ?l @ cs" by (simp add: s lower_first_Cons)
  have h: "\<not> delim (hd (?l @ cs))" using l by (cases ?l) auto
  have "cs \<noteq> [] \<Longrightarrow> \<not> delim (last cs)" using assms(3) s by simp
  then have "?l @ cs \<noteq> [] \<and> \<not> delim (last (?l @ cs))" using l by (intro last_nd_app) auto
  then show ?thesis using h e by simp
qed

lemma camelize_str_no_delim:
  assumes "\<not> py_isupper s" "s \<noteq> []" "\<not> delim (hd s)" "\<not> delim (last s)"
  shows "list_all (\<lambda>c. \<not> delim c) (camelize_str s)"
proof (cases "py_isnumeric s")
  case True
  then show ?thesis using numeric_no_delim[OF True]
    by (simp add: camelize_str_def list_all_iff)
next
  case False
  let ?u = "lower_first s"
  have t: "camelize_str s = underscore_sub None ?u"
    using assms(1) False by (simp add: camelize_str_def)
  obtain c cs where u: "?u = c # cs" using lower_first_hd_last[OF assms(2-4)] by (cases ?u) auto
  have h: "\<not> delim c" using lower_first_hd_last[OF assms(2-4)] u by simp
  have l: "underscore_sub None ?u \<noteq> [] \<and> \<not> delim (last (underscore_sub None ?u))"
    using lower_first_hd_last[OF assms(2-4)] by (intro usub_last) simp_all
  have "hd (underscore_sub None ?u) = c" by (simp add: u usub_None_Cons)
  then have "strip_delims (camelize_str s) = camelize_str s"
    unfolding t using l h by (intro strip_delims_id) simp_all
  then show ?thesis using camelize_str_strip[OF assms(1)] by simp
qed

subsection \<open>camelize on an ASCII string\<close>

lemma ascii_Cons: "ascii (c # cs) = (ascii_c c \<and> ascii cs)"
  by (simp add: ascii_def)

lemma ascii_Nil: "ascii []"
  by (simp add: ascii_def)

lemma ascii_append: "ascii (xs @ ys) = (ascii xs \<and> ascii ys)"
  by (simp add: ascii_def)

lemma ascii_dropWhile: "ascii s \<Longrightarrow> ascii (dropWhile P s)"
  by (auto simp: ascii_def list_all_iff dest: set_dropWhileD)

lemma usub_ascii:
  "ascii s \<Longrightarrow> length (underscore_sub p s) \<le> length s \<and> ascii (underscore_sub p s)"
proof (induction p s rule: underscore_sub.induct)
  case (1 prev)
  then show ?case by (simp add: ascii_Nil)
next
  case (2 prev c cs)
  have a: "ascii_c c" "ascii cs" using 2(4) by (simp_all add: ascii_Cons)
  show ?case
  proof (cases "c # cs" rule: usub_cases[of _ _ prev])
    case Nil
    then show ?thesis by simp
  next
    case (copy c' cs')
    then show ?thesis using 2(3) a by (simp add: usub_copy ascii_Cons)
  next
    case (trail c' cs')
    then show ?thesis using 2(1) a by (simp add: usub_trail ascii_Cons)
  next
    case (match c' cs' x xs)
    then have dw: "dropWhile delim (c # cs) = x # xs" by simp
    have "ascii (x # xs)" using ascii_dropWhile[OF 2(4), of delim] dw by simp
    then have x: "ascii_c x" "ascii xs" by (simp_all add: ascii_Cons)
    obtain u where u: "py_upper_c x = [u]" "ascii_c u" using ascii_upper_c[OF x(1)] by blast
    have "length (x # xs) \<le> length (c # cs)" by (metis dw length_dropWhile_le)
    moreover have "length (underscore_sub (Some x) xs) \<le> length xs \<and>
                   ascii (underscore_sub (Some x) xs)"
      using 2(2)[OF _ dw] match x by simp
    ultimately show ?thesis using match u by (simp add: usub_match ascii_Cons)
  qed
qed

lemma lower_first_ascii:
  "ascii s \<Longrightarrow> length (lower_first s) = length s \<and> ascii (lower_first s)"
proof (cases s)
  case Nil
  then show ?thesis by (simp add: lower_first_def ascii_Nil)
next
  case (Cons c cs)
  assume "ascii s"
  then have a: "ascii_c c" "ascii cs" by (simp_all add: Cons ascii_Cons)
  obtain l where "py_lower_c c = [l]" "ascii_c l" using ascii_lower_c[OF a(1)] by blast
  then show ?thesis using a by (simp add: Cons lower_first_Cons ascii_Cons)
qed

lemma camelize_str_ascii:
  "ascii s \<Longrightarrow> length (camelize_str s) \<le> length s \<and> ascii (camelize_str s)"
  using usub_ascii[of "lower_first s" None] lower_first_ascii[of s]
  by (simp add: camelize_str_def)

lemma usub_first_not_lower:
  assumes "cs = [] \<or> \<not> is_lower (hd cs)" and "ascii cs"
  shows "\<not> list_ex is_lower (take 1 (underscore_sub p cs))"
proof (cases cs rule: usub_cases[of _ _ p])
  case Nil
  then show ?thesis by simp
next
  case (copy c cs')
  then show ?thesis using assms by (simp add: usub_copy)
next
  case (trail c cs')
  then show ?thesis using assms by (simp add: usub_trail)
next
  case (match c cs' x xs)
  have "ascii (x # xs)" using ascii_dropWhile[of cs' delim] assms(2) match by (simp add: ascii_Cons)
  then obtain u where "py_upper_c x = [u]" "\<not> is_lower u"
    using ascii_upper_c[of x] by (auto simp: ascii_Cons)
  then show ?thesis using match by (simp add: usub_match)
qed

lemma lower_first_fix:
  assumes "\<not> py_isupper s" "\<not> py_isnumeric s" "ascii s"
  shows "lower_first (camelize_str s) = camelize_str s"
proof (cases s)
  case Nil
  then show ?thesis by (simp add: camelize_str_def lower_first_def py_isupper_def py_isnumeric_def)
next
  case (Cons c cs)
  have a: "ascii_c c" "ascii cs" using assms(3) by (simp_all add: Cons ascii_Cons)
  obtain l where l: "py_lower_c c = [l]" "\<not> is_upper l" "py_lower_c l = [l]"
    using ascii_lower_c[OF a(1)] by blast
  define c' where "c' = (if py_isupper (take 2 s) then c else l)"
  have lf: "lower_first s = c' # cs" by (simp add: Cons lower_first_Cons c'_def l)
  have t: "camelize_str s = c' # underscore_sub (Some c') cs"
    using assms by (simp add: camelize_str_def lf usub_None_Cons)
  show ?thesis
  proof (cases "is_upper c'")
    case False
    then have "py_lower_c c' = [c']" by (rule lower_c_id)
    then show ?thesis by (simp add: t lower_first_Cons)
  next
    case True
    then have up: "py_isupper (take 2 s)" and cc: "c' = c"
      using l(2) by (auto simp: c'_def split: if_splits)
    then have "cs = [] \<or> \<not> is_lower (hd cs)" unfolding Cons isupper_take2 by simp
    then have "\<not> list_ex is_lower (take 1 (underscore_sub (Some c') cs))"
      using a(2) by (rule usub_first_not_lower)
    then have "py_isupper (take 2 (c' # underscore_sub (Some c') cs))"
      using True upper_not_lower[OF True] by (simp add: py_isupper_def)
    then show ?thesis by (simp add: t lower_first_Cons)
  qed
qed

lemma camelize_str_idem:
  assumes "ascii s"
  shows "camelize_str (camelize_str s) = camelize_str s"
proof (cases "py_isupper s \<or> py_isnumeric s")
  case True
  then show ?thesis by (simp add: camelize_str_def)
next
  case False
  let ?t = "camelize_str s"
  have t: "?t = underscore_sub None (lower_first s)" using False by (simp add: camelize_str_def)
  have sh: "shape ?t" unfolding t by (rule usub_shape) (simp add: after_word_def)
  have lf: "lower_first ?t = ?t" using False assms by (simp add: lower_first_fix)
  have "underscore_sub None ?t = ?t" using sh by (intro usub_fix) (simp_all add: after_word_def)
  then show ?thesis using lf by (simp add: camelize_str_def[of ?t])
qed

subsection \<open>decamelize on a string\<close>

lemma lower_c_not_upper: "u \<in> set (py_lower_c c) \<Longrightarrow> \<not> is_upper u"
  unfolding py_lower_c_def is_upper_def by (simp split: if_splits; linarith)

lemma py_lower_no_AZ: "\<not> list_ex is_AZ (py_lower s)"
  by (auto simp: py_lower_def list_ex_iff dest: lower_c_not_AZ)

lemma py_lower_id: "\<not> list_ex is_upper s \<Longrightarrow> py_lower s = s"
  by (induction s) (simp_all add: py_lower_def lower_c_id)

lemma py_lower_idem: "py_lower (py_lower s) = py_lower s"
  by (rule py_lower_id) (auto simp: py_lower_def list_ex_iff dest: lower_c_not_upper)

lemma acronym_sub_id: "\<not> list_ex is_AZ s \<Longrightarrow> acronym_sub s = s"
  by (induction s) simp_all

lemma split_re_id: "\<not> list_ex is_AZ s \<Longrightarrow> split_re acc s = [acc @ s]"
proof (induction s arbitrary: acc)
  case Nil
  then show ?case by simp
next
  case (Cons c cs)
  then have ih: "split_re (acc @ [c]) cs = [acc @ c # cs]" by simp
  show ?case
  proof (cases "dropWhile delim (c # cs)")
    case Nil
    then show ?thesis using ih by (simp only: split_re.simps list.case)
  next
    case (Cons u r)
    have "u \<in> set (dropWhile delim (c # cs))" unfolding Cons by simp
    then have "u \<in> set (c # cs)" by (rule set_dropWhileD)
    then have "\<not> is_AZ u" using Cons.prems by (auto simp: list_ex_iff)
    then show ?thesis using ih Cons by (simp only: split_re.simps list.case if_False)
  qed
qed

lemma decamelize_str_plain:
  assumes "\<not> list_ex is_AZ t" and "py_lower t = t"
  shows "decamelize_str t = t"
proof -
  have j: "join [95] (filter (\<lambda>p. p \<noteq> []) [t]) = t" by (cases t) simp_all
  show ?thesis
    using assms j by (simp add: decamelize_str_def acronym_sub_id split_re_id)
qed

lemma decamelize_str_idem: "decamelize_str (decamelize_str s) = decamelize_str s"
proof (cases "py_isupper s \<or> py_isnumeric s")
  case True
  then show ?thesis by (simp add: decamelize_str_def)
next
  case False
  then obtain x where x: "decamelize_str s = py_lower x" by (simp add: decamelize_str_def)
  show ?thesis unfolding x
    by (rule decamelize_str_plain) (simp_all add: py_lower_no_AZ py_lower_idem)
qed

lemma camelize_str_Nil: "camelize_str [] = []"
  by (simp add: camelize_str_def lower_first_def py_isupper_def py_isnumeric_def)

lemma decamelize_str_Nil: "decamelize_str [] = []"
  by (rule decamelize_str_plain) (simp_all add: py_lower_def)

lemma early_out:
  "py_isupper s \<or> py_isnumeric s \<Longrightarrow> camelize_str s = s \<and> decamelize_str s = s"
  by (simp add: camelize_str_def decamelize_str_def)

subsection \<open>The converters on strings\<close>

lemma text_of_PStr: "text_of (PStr s) = s"
  by (simp add: text_of_def)

lemma camelize_PStr: "camelize (PStr s) = PStr (camelize_str s)"
  by (simp add: camelize.simps[of "PStr s"] is_container_def text_of_PStr camelize_str_def)

lemma decamelize_PStr: "decamelize (PStr s) = PStr (decamelize_str s)"
  by (simp add: decamelize.simps[of "PStr s"] is_container_def text_of_PStr decamelize_str_def)

subsection \<open>The converters on other values\<close>

lemma camelize_scalar:
  "\<not> is_container v \<Longrightarrow>
     camelize v = (if py_isupper (text_of v) \<or> py_isnumeric (text_of v) then v
                   else PStr (camelize_str (text_of v)))"
  by (simp add: camelize.simps[of v] camelize_str_def)

lemma decamelize_scalar:
  "\<not> is_container v \<Longrightarrow>
     decamelize v = (if py_isupper (text_of v) \<or> py_isnumeric (text_of v) then v
                     else PStr (decamelize_str (text_of v)))"
  by (simp add: decamelize.simps[of v] decamelize_str_def)

lemma camelize_container: "is_container v \<Longrightarrow> camelize v = process_keys camelize v"
  by (simp add: camelize.simps[of v])

lemma decamelize_container: "is_container v \<Longrightarrow> decamelize v = process_keys decamelize v"
  by (simp add: decamelize.simps[of v])

lemma dict_set_new:
  "key_norm k \<notin> set (map (\<lambda>kv. key_norm (fst kv)) d) \<Longrightarrow> dict_set d k v = d @ [(k, v)]"
  by (induction d) (auto simp: key_eq_def)

lemma foldl_dict_set:
  "distinct (map (\<lambda>kv. key_norm (fst kv)) (d @ items)) \<Longrightarrow>
     foldl (\<lambda>d (k, v). dict_set d k v) d items = d @ items"
proof (induction items arbitrary: d)
  case Nil
  then show ?case by simp
next
  case (Cons kv items)
  obtain k v where kv: "kv = (k, v)" by (cases kv)
  have "key_norm k \<notin> set (map (\<lambda>kv. key_norm (fst kv)) d)" using Cons.prems kv by auto
  then have s: "dict_set d k v = d @ [(k, v)]" by (rule dict_set_new)
  have "distinct (map (\<lambda>kv. key_norm (fst kv)) ((d @ [(k, v)]) @ items))"
    using Cons.prems kv by auto
  then have "foldl (\<lambda>d (k, v). dict_set d k v) (d @ [(k, v)]) items = (d @ [(k, v)]) @ items"
    by (rule Cons.IH)
  then show ?case using s kv by simp
qed

lemma dict_of_distinct:
  "distinct (map (\<lambda>kv. key_norm (fst kv)) items) \<Longrightarrow> dict_of items = items"
  using foldl_dict_set[of "[]" items] by (simp add: dict_of_def)

lemma process_keys_PDict_distinct:
  assumes "distinct (map (\<lambda>kv. key_norm (fn (fst kv))) kvs)"
  shows "process_keys fn (PDict kvs) = PDict (map (\<lambda>(k, v). (fn k, process_keys fn v)) kvs)"
proof -
  have "map (\<lambda>kv. key_norm (fst kv)) (map (\<lambda>(k, v). (fn k, process_keys fn v)) kvs)
          = map (\<lambda>kv. key_norm (fn (fst kv))) kvs"
    by (induction kvs) auto
  then have "distinct (map (\<lambda>kv. key_norm (fst kv))
                 (map (\<lambda>(k, v). (fn k, process_keys fn v)) kvs))"
    using assms by (simp only:)
  then show ?thesis by (simp only: process_keys.simps dict_of_distinct)
qed

lemma process_keys_mapping_free: "mapping_free v \<Longrightarrow> process_keys fn v = v"
proof (induction v rule: mapping_free.induct)
  case (1 xs)
  then show ?case by (simp add: map_idI)
qed simp_all

lemma digit_code: "(d::nat) < 10 \<Longrightarrow> is_digit (48 + int d)"
  by (simp add: is_digit_def)

lemma digits_numeric: "digits n \<noteq> [] \<and> list_all is_digit (digits n)"
proof (induction n rule: digits.induct)
  case (1 n)
  show ?case
  proof (cases "n < 10")
    case True
    then show ?thesis by (subst digits.simps, subst (2) digits.simps) (simp add: digit_code)
  next
    case False
    then show ?thesis using 1
      by (subst digits.simps, subst (2) digits.simps) (simp add: digit_code)
  qed
qed

lemma digit_not_upper: "is_digit c \<Longrightarrow> \<not> is_upper c"
  by (auto simp: is_digit_def is_upper_def)

lemma digit_not_delim: "is_digit c \<Longrightarrow> \<not> delim c"
  by (simp add: digit_numeric numeric_not_delim)

lemma usub_no_delim: "\<not> list_ex delim s \<Longrightarrow> underscore_sub p s = s"
  by (induction s arbitrary: p) (simp_all add: usub_copy)

lemma camelize_str_plain:
  assumes "\<not> list_ex is_upper t" and "\<not> list_ex delim (tl t)"
  shows "camelize_str t = t"
proof (cases t)
  case Nil
  then show ?thesis by (simp add: camelize_str_Nil)
next
  case (Cons c cs)
  have "\<not> is_upper c" using assms(1) Cons by simp
  then have "lower_first t = t"
    unfolding Cons lower_first_Cons by (simp add: lower_c_id)
  moreover have "underscore_sub None t = t"
    using assms(2) by (simp add: Cons usub_None_Cons usub_no_delim)
  ultimately show ?thesis by (simp add: camelize_str_def)
qed

lemma minus_digits:
  "\<not> list_ex is_upper (45 # digits m) \<and> \<not> list_ex delim (digits m) \<and>
   \<not> py_isupper (45 # digits m) \<and> \<not> py_isnumeric (45 # digits m)"
proof -
  have d: "\<forall>c\<in>set (digits m). is_digit c" using digits_numeric[of m] by (simp add: list_all_iff)
  have a: "\<not> is_upper 45" by (simp add: is_upper_def)
  have b: "\<not> is_numeric 45" by (simp add: is_numeric_def)
  show ?thesis using d a b digit_not_upper digit_not_delim
    by (auto simp: list_ex_iff py_isupper_def py_isnumeric_def)
qed

lemma text_of_PInt:
  "text_of (PInt n) =
     (if 0 < n then digits (nat n) else if n = 0 then [] else 45 # digits (nat (- n)))"
  by (simp add: text_of_def)

lemma positive_numeric: "0 < n \<Longrightarrow> py_isnumeric (text_of (PInt n))"
  using digits_numeric[of "nat n"]
  by (auto simp: text_of_PInt py_isnumeric_def list_all_iff digit_numeric)

lemma camelize_PInt:
  "camelize (PInt n) =
     (if 0 < n then PInt n else if n = 0 then PStr [] else PStr (45 # digits (nat (- n))))"
proof -
  have c: "\<not> is_container (PInt n)" by (simp add: is_container_def)
  consider "0 < n" | "n = 0" | "n < 0" by linarith
  then show ?thesis
  proof cases
    case 1
    then show ?thesis using positive_numeric[OF 1] by (simp add: camelize_scalar[OF c])
  next
    case 2
    have "camelize (PInt 0) = PStr []" by code_simp
    then show ?thesis using 2 by simp
  next
    case 3
    then have t: "text_of (PInt n) = 45 # digits (nat (- n))" by (simp add: text_of_PInt)
    have "camelize_str (45 # digits (nat (- n))) = 45 # digits (nat (- n))"
      using minus_digits[of "nat (- n)"] by (intro camelize_str_plain) simp_all
    then show ?thesis using 3 minus_digits[of "nat (- n)"] by (simp add: camelize_scalar[OF c] t)
  qed
qed

lemma decamelize_PInt:
  "decamelize (PInt n) =
     (if 0 < n then PInt n else if n = 0 then PStr [] else PStr (45 # digits (nat (- n))))"
proof -
  have c: "\<not> is_container (PInt n)" by (simp add: is_container_def)
  consider "0 < n" | "n = 0" | "n < 0" by linarith
  then show ?thesis
  proof cases
    case 1
    then show ?thesis using positive_numeric[OF 1] by (simp add: decamelize_scalar[OF c])
  next
    case 2
    have "decamelize (PInt 0) = PStr []" by code_simp
    then show ?thesis using 2 by simp
  next
    case 3
    then have t: "text_of (PInt n) = 45 # digits (nat (- n))" by (simp add: text_of_PInt)
    have u: "\<not> list_ex is_upper (45 # digits (nat (- n)))"
      using minus_digits[of "nat (- n)"] by simp
    then have "\<not> list_ex is_AZ (45 # digits (nat (- n)))"
      using AZ_upper by (auto simp: list_ex_iff)
    then have "decamelize_str (45 # digits (nat (- n))) = 45 # digits (nat (- n))"
      using py_lower_id[OF u] by (rule decamelize_str_plain)
    then show ?thesis using 3 minus_digits[of "nat (- n)"] by (simp add: decamelize_scalar[OF c] t)
  qed
qed

lemma camelize_PBool: "camelize (PBool b) = PStr (if b then lit ''true'' else [])"
proof (cases b)
  case True
  have "camelize (PBool True) = PStr (lit ''true'')" by code_simp
  then show ?thesis using True by simp
next
  case False
  have "camelize (PBool False) = PStr []" by code_simp
  then show ?thesis using False by simp
qed

lemma decamelize_PBool: "decamelize (PBool b) = PStr (if b then lit ''true'' else [])"
proof (cases b)
  case True
  have "decamelize (PBool True) = PStr (lit ''true'')" by code_simp
  then show ?thesis using True by simp
next
  case False
  have "decamelize (PBool False) = PStr []" by code_simp
  then show ?thesis using False by simp
qed

lemma camelize_PNone: "camelize PNone = PStr []"
  by code_simp

lemma decamelize_PNone: "decamelize PNone = PStr []"
  by code_simp

lemma fn_container:
  "fn = camelize \<or> fn = decamelize \<Longrightarrow> is_container v \<Longrightarrow> fn v = process_keys fn v"
  by (auto simp: camelize_container decamelize_container)

lemma fn_non_string_key:
  assumes "fn = camelize \<or> fn = decamelize"
    and "k = PNone \<or> (\<exists>b. k = PBool b) \<or> (\<exists>n. k = PInt n)"
  shows "fn k = k \<longleftrightarrow> (\<exists>n>0. k = PInt n)"
  using assms
  by (auto simp: camelize_PNone decamelize_PNone camelize_PBool decamelize_PBool
      camelize_PInt decamelize_PInt split: if_splits)

section \<open>The claims\<close>

text \<open>
  C1, as stated. \<^verbatim>\<open>camelize\<close> is not idempotent on every string. Take \<^verbatim>\<open>A\<close>,
  \<^verbatim>\<open>_\<close> and U+00AA, a lowercase character that is its own upper case. The first two
  characters pass \<^verbatim>\<open>isupper()\<close>, so the \<^verbatim>\<open>A\<close> stays, and the result is \<^verbatim>\<open>A\<close>
  followed by U+00AA. There the first two characters fail \<^verbatim>\<open>isupper()\<close>, and a second
  \<^verbatim>\<open>camelize\<close> lower-cases the \<^verbatim>\<open>A\<close>.
\<close>

theorem camelize_not_idempotent_counterexample:
  "camelize (PStr [65, 95, 170]) = PStr [65, 170] \<and>
   camelize (camelize (PStr [65, 95, 170])) = PStr [97, 170] \<and>
   camelize (camelize (PStr [65, 95, 170])) \<noteq> camelize (PStr [65, 95, 170])"
  by code_simp

text \<open>
  C1, amended. \<^verbatim>\<open>decamelize\<close> is idempotent on every string, and \<^verbatim>\<open>camelize\<close> is
  idempotent on every ASCII string.
\<close>

theorem idempotent_decamelize_and_ascii_camelize:
  "decamelize (decamelize (PStr s)) = decamelize (PStr s) \<and>
   (ascii s \<longrightarrow> camelize (camelize (PStr s)) = camelize (PStr s))"
  by (simp add: camelize_PStr decamelize_PStr camelize_str_idem decamelize_str_idem)

theorem idempotent_decamelize_and_ascii_camelize_witness:
  "ascii (lit ''Hello_big-world'') \<and>
   camelize (PStr (lit ''Hello_big-world'')) = PStr (lit ''helloBigWorld'') \<and>
   camelize (camelize (PStr (lit ''Hello_big-world''))) = PStr (lit ''helloBigWorld'') \<and>
   decamelize (PStr (lit ''HelloWorld'')) = PStr (lit ''hello_world'') \<and>
   decamelize (decamelize (PStr (lit ''HelloWorld''))) = PStr (lit ''hello_world'') \<and>
   decamelize (PStr [65, 95, 170]) = PStr [97, 95, 95, 170] \<and>
   decamelize (decamelize (PStr [65, 95, 170])) = PStr [97, 95, 95, 170]"
proof -
  have a: "ascii (lit ''Hello_big-world'')" by code_simp
  have c: "camelize (PStr (lit ''Hello_big-world'')) = PStr (lit ''helloBigWorld'')" by code_simp
  have d: "decamelize (PStr (lit ''HelloWorld'')) = PStr (lit ''hello_world'')" by code_simp
  have e: "decamelize (PStr [65, 95, 170]) = PStr [97, 95, 95, 170]" by code_simp
  show ?thesis
    using idempotent_decamelize_and_ascii_camelize[of "lit ''Hello_big-world''"]
      idempotent_decamelize_and_ascii_camelize[of "lit ''HelloWorld''"]
      idempotent_decamelize_and_ascii_camelize[of "[65, 95, 170]"] a
    by (simp add: c d e)
qed

text \<open>
  C2, as stated. A key that is not a string does not always pass through unchanged:
  the walk applies the converter to every key, and the converter takes
  \<^verbatim>\<open>str\<close> of what it is given: the key \<^verbatim>\<open>True\<close> becomes the string
  \<^verbatim>\<open>"true"\<close>, the key \<^verbatim>\<open>None\<close> the empty string.
\<close>

theorem non_string_keys_counterexample:
  "camelize (PDict [(PBool True, PInt 1), (PNone, PInt 2)]) =
     PDict [(PStr (lit ''true''), PInt 1), (PStr [], PInt 2)] \<and>
   decamelize (PDict [(PBool True, PInt 1), (PNone, PInt 2)]) =
     PDict [(PStr (lit ''true''), PInt 1), (PStr [], PInt 2)]"
  by code_simp

text \<open>
  C2, amended. In a mapping walked by \<^verbatim>\<open>camelize\<close> or \<^verbatim>\<open>decamelize\<close> in which no
  two keys are converted to the same key, a key \<open>k\<close> that is \<^verbatim>\<open>None\<close>, a boolean or
  an integer appears in the result as the converted key, paired with the walked value;
  the converted key is \<open>k\<close> itself exactly when \<open>k\<close> is a positive integer. The other
  keys are replaced by a string: \<^verbatim>\<open>True\<close> by \<^verbatim>\<open>"true"\<close>; \<^verbatim>\<open>None\<close>, \<^verbatim>\<open>False\<close> and
  \<^verbatim>\<open>0\<close> by the empty string; a negative integer by its decimal text.
\<close>

theorem non_string_keys:
  assumes "fn = camelize \<or> fn = decamelize"
    and "(k, v) \<in> set kvs"
    and "k = PNone \<or> (\<exists>b. k = PBool b) \<or> (\<exists>n. k = PInt n)"
    and "distinct (map (\<lambda>kv. key_norm (fn (fst kv))) kvs)"
  shows "\<exists>out. fn (PDict kvs) = PDict out \<and> (fn k, process_keys fn v) \<in> set out \<and>
               (fn k = k \<longleftrightarrow> (\<exists>n>0. k = PInt n)) \<and>
               (k = PNone \<longrightarrow> fn k = PStr []) \<and>
               (\<forall>b. k = PBool b \<longrightarrow> fn k = PStr (if b then lit ''true'' else [])) \<and>
               (\<forall>n. k = PInt n \<longrightarrow>
                  fn k = (if 0 < n then PInt n else if n = 0 then PStr []
                          else PStr (45 # digits (nat (- n)))))"
proof -
  let ?out = "map (\<lambda>(k, v). (fn k, process_keys fn v)) kvs"
  have "fn (PDict kvs) = process_keys fn (PDict kvs)"
    using assms(1) by (rule fn_container) (simp add: is_container_def)
  then have a: "fn (PDict kvs) = PDict ?out"
    using process_keys_PDict_distinct[OF assms(4)] by simp
  have b: "(fn k, process_keys fn v) \<in> set ?out" using assms(2) by force
  have c: "k = PNone \<longrightarrow> fn k = PStr []"
    using assms(1) by (auto simp: camelize_PNone decamelize_PNone)
  have d: "\<forall>b. k = PBool b \<longrightarrow> fn k = PStr (if b then lit ''true'' else [])"
    using assms(1) by (auto simp: camelize_PBool decamelize_PBool)
  have e: "\<forall>n. k = PInt n \<longrightarrow>
             fn k = (if 0 < n then PInt n else if n = 0 then PStr []
                     else PStr (45 # digits (nat (- n))))"
    using assms(1) camelize_PInt decamelize_PInt by blast
  show ?thesis using a b c d e fn_non_string_key[OF assms(1,3)] by blast
qed

theorem non_string_keys_witness:
  "camelize (PDict [(PInt 7, PDict [(PStr (lit ''a_b''), PInt 1)]), (PBool True, PNone)]) =
     PDict [(PInt 7, PDict [(PStr (lit ''aB''), PInt 1)]), (PStr (lit ''true''), PNone)] \<and>
   camelize (PInt 7) = PInt 7 \<and> camelize (PBool True) = PStr (lit ''true'') \<and>
   camelize (PBool True) \<noteq> PBool True"
proof -
  let ?kvs = "[(PInt 7, PDict [(PStr (lit ''a_b''), PInt 1)]), (PBool True, PNone)]"
  let ?int = "\<lambda>fn n. if 0 < n then PInt n else if n = 0 then PStr []
                       else PStr (45 # digits (nat (- n)))"
  have d: "distinct (map (\<lambda>kv. key_norm (camelize (fst kv))) ?kvs)" by code_simp
  have e: "camelize (PDict ?kvs) =
     PDict [(PInt 7, PDict [(PStr (lit ''aB''), PInt 1)]), (PStr (lit ''true''), PNone)]"
    by code_simp
  have a: "\<exists>out. camelize (PDict ?kvs) = PDict out \<and>
          (camelize (PInt 7), process_keys camelize (PDict [(PStr (lit ''a_b''), PInt 1)]))
             \<in> set out \<and>
          (camelize (PInt 7) = PInt 7 \<longleftrightarrow> (\<exists>n>0. PInt 7 = PInt n)) \<and>
          (PInt 7 = PNone \<longrightarrow> camelize (PInt 7) = PStr []) \<and>
          (\<forall>b. PInt 7 = PBool b \<longrightarrow> camelize (PInt 7) = PStr (if b then lit ''true'' else [])) \<and>
          (\<forall>n. PInt 7 = PInt n \<longrightarrow>
             camelize (PInt 7) = (if 0 < n then PInt n else if n = 0 then PStr []
                     else PStr (45 # digits (nat (- n)))))"
    by (rule non_string_keys[of camelize "PInt 7" _ ?kvs, OF _ _ _ d]) simp_all
  have b: "\<exists>out. camelize (PDict ?kvs) = PDict out \<and>
          (camelize (PBool True), process_keys camelize PNone) \<in> set out \<and>
          (camelize (PBool True) = PBool True \<longleftrightarrow> (\<exists>n>0. PBool True = PInt n)) \<and>
          (PBool True = PNone \<longrightarrow> camelize (PBool True) = PStr []) \<and>
          (\<forall>b. PBool True = PBool b \<longrightarrow>
             camelize (PBool True) = PStr (if b then lit ''true'' else [])) \<and>
          (\<forall>n. PBool True = PInt n \<longrightarrow>
             camelize (PBool True) = (if 0 < n then PInt n else if n = 0 then PStr []
                     else PStr (45 # digits (nat (- n)))))"
    by (rule non_string_keys[of camelize "PBool True" _ ?kvs, OF _ _ _ d]) auto
  have p: "\<exists>n>0. PInt 7 = PInt n" by simp
  have q: "\<not> (\<exists>n>0. PBool True = PInt n)" by simp
  from a p have "camelize (PInt 7) = PInt 7" by blast
  moreover from b q have "camelize (PBool True) \<noteq> PBool True" by blast
  moreover have "camelize (PBool True) = PStr (lit ''true'')"
  proof -
    from b have "\<forall>b. PBool True = PBool b \<longrightarrow>
        camelize (PBool True) = PStr (if b then lit ''true'' else [])" by blast
    then have "camelize (PBool True) = PStr (if True then lit ''true'' else [])" by blast
    then show ?thesis by (simp only: if_True)
  qed
  ultimately show ?thesis using e by simp
qed

text \<open>
  C3, as stated. That the result contains no delimiter at all does not hold:
  the look-behind of \<^verbatim>\<open>UNDERSCORE_RE\<close> leaves a leading run of delimiters alone, a
  trailing run has no character after it to match, and a string that \<^verbatim>\<open>isupper()\<close>
  accepts is returned as it is.
\<close>

theorem camelize_keeps_outer_delimiters_counterexample:
  "camelize (PStr (lit ''_private_name_'')) = PStr (lit ''_privateName_'') \<and>
   camelize (PStr (lit ''MAX_VALUE'')) = PStr (lit ''MAX_VALUE'') \<and>
   delim 95 \<and> lit ''_'' = [95]"
  by code_simp

text \<open>
  C3, amended. For every string \<open>s\<close> that \<^verbatim>\<open>isupper()\<close> rejects, the result of
  \<^verbatim>\<open>camelize\<close> has delimiters only in its leading and its trailing run: stripped of
  these two runs it contains no delimiter. When \<open>s\<close> neither starts nor ends with a
  delimiter, the result contains no delimiter at all. A string that \<^verbatim>\<open>isupper()\<close>
  accepts is returned unchanged, delimiters included.
\<close>

theorem camelize_inner_delimiters:
  "\<exists>t. camelize (PStr s) = PStr t \<and>
       (py_isupper s \<longrightarrow> t = s) \<and>
       (\<not> py_isupper s \<longrightarrow>
          list_all (\<lambda>c. \<not> delim c) (strip_delims t) \<and>
          (s \<noteq> [] \<and> \<not> delim (hd s) \<and> \<not> delim (last s) \<longrightarrow>
             list_all (\<lambda>c. \<not> delim c) t))"
  by (simp add: camelize_PStr camelize_str_strip camelize_str_no_delim early_out)

theorem camelize_inner_delimiters_witness:
  "camelize (PStr (lit ''_private_name_'')) = PStr (lit ''_privateName_'') \<and>
   list_all (\<lambda>c. \<not> delim c) (strip_delims (lit ''_privateName_'')) \<and>
   camelize (PStr (lit ''hello-big  world'')) = PStr (lit ''helloBigWorld'') \<and>
   list_all (\<lambda>c. \<not> delim c) (lit ''helloBigWorld'') \<and>
   camelize (PStr (lit ''MAX_VALUE'')) = PStr (lit ''MAX_VALUE'')"
proof -
  have a: "\<not> py_isupper (lit ''_private_name_'')" by code_simp
  have b: "\<not> py_isupper (lit ''hello-big  world'')" by code_simp
  have m: "py_isupper (lit ''MAX_VALUE'')" by code_simp
  have c: "camelize (PStr (lit ''_private_name_'')) = PStr (lit ''_privateName_'')" by code_simp
  have d: "camelize (PStr (lit ''hello-big  world'')) = PStr (lit ''helloBigWorld'')"
    by code_simp
  have e: "lit ''hello-big  world'' \<noteq> [] \<and> \<not> delim (hd (lit ''hello-big  world'')) \<and>
           \<not> delim (last (lit ''hello-big  world''))" by code_simp
  show ?thesis
    using camelize_inner_delimiters[of "lit ''_private_name_''"]
      camelize_inner_delimiters[of "lit ''hello-big  world''"]
      camelize_inner_delimiters[of "lit ''MAX_VALUE''"] a b m e
    by (simp add: c d)
qed




text \<open>
  C5, as stated. A boolean passed to a converter does not fail: the code
  takes \<^verbatim>\<open>str\<close> of it and converts the text: \<^verbatim>\<open>True\<close> gives \<^verbatim>\<open>"true"\<close>.
\<close>

theorem scalars_coerced_counterexample:
  "camelize (PBool True) = PStr (lit ''true'') \<and> decamelize (PBool True) = PStr (lit ''true'')"
  by code_simp

text \<open>
  C5, amended. A value that is neither a list nor a mapping is never refused: a boolean
  gives \<^verbatim>\<open>"true"\<close> or the empty string, \<^verbatim>\<open>None\<close> the empty string, a positive
  integer itself, zero the empty string, and a negative integer its decimal text.
\<close>

theorem scalars_coerced:
  "camelize (PBool b) = PStr (if b then lit ''true'' else []) \<and>
   decamelize (PBool b) = PStr (if b then lit ''true'' else []) \<and>
   camelize PNone = PStr [] \<and> decamelize PNone = PStr [] \<and>
   camelize (PInt n) =
     (if 0 < n then PInt n else if n = 0 then PStr []
      else PStr (45 # digits (nat (- n)))) \<and>
   decamelize (PInt n) =
     (if 0 < n then PInt n else if n = 0 then PStr []
      else PStr (45 # digits (nat (- n))))"
  by (simp only: camelize_PBool decamelize_PBool camelize_PNone decamelize_PNone
      camelize_PInt decamelize_PInt simp_thms)

theorem scalars_coerced_witness:
  "camelize (PBool False) = PStr [] \<and> camelize (PInt 12) = PInt 12 \<and>
   decamelize (PInt (- 5)) = PStr (lit ''-5'')"
proof -
  have d: "45 # digits 5 = lit ''-5''" by code_simp
  show ?thesis
    using scalars_coerced[of False 12] scalars_coerced[of False "- 5"] by (simp add: d)
qed

text \<open>
  C6, as stated. An output mapping need not have the values of its input mapping: two
  keys that are converted to the same key share one entry of the output,
  which keeps the later value.
\<close>

theorem list_of_mappings_counterexample:
  "camelize (PList [PDict [(PStr (lit ''a_b''), PInt 1), (PStr (lit ''aB''), PInt 2)]]) =
     PList [PDict [(PStr (lit ''aB''), PInt 2)]]"
  by code_simp

text \<open>
  C6, amended. For a list of mappings in each of which no two keys are converted to the
  same key, the result is the list, in the same order and of the same length, of the
  mappings with every key converted and every value walked; when the values hold no
  mapping, the values are those of the input, in the same order.
\<close>

theorem list_of_mappings:
  assumes "fn = camelize \<or> fn = decamelize"
    and "\<forall>d\<in>set ds. distinct (map (\<lambda>kv. key_norm (fn (fst kv))) d)"
  shows "fn (PList (map PDict ds)) =
           PList (map (\<lambda>d. PDict (map (\<lambda>(k, v). (fn k, process_keys fn v)) d)) ds) \<and>
         ((\<forall>d\<in>set ds. \<forall>kv\<in>set d. mapping_free (snd kv)) \<longrightarrow>
          fn (PList (map PDict ds)) =
            PList (map (\<lambda>d. PDict (map (\<lambda>(k, v). (fn k, v)) d)) ds))"
proof -
  have "fn (PList (map PDict ds)) = process_keys fn (PList (map PDict ds))"
    using assms(1) by (rule fn_container) (simp add: is_container_def)
  also have "\<dots> = PList (map (\<lambda>d. process_keys fn (PDict d)) ds)" by (simp add: comp_def)
  also have "map (\<lambda>d. process_keys fn (PDict d)) ds =
             map (\<lambda>d. PDict (map (\<lambda>(k, v). (fn k, process_keys fn v)) d)) ds"
  proof (rule map_cong[OF refl])
    fix d assume "d \<in> set ds"
    then have "distinct (map (\<lambda>kv. key_norm (fn (fst kv))) d)" using assms(2) by blast
    then show "process_keys fn (PDict d) = PDict (map (\<lambda>(k, v). (fn k, process_keys fn v)) d)"
      by (rule process_keys_PDict_distinct)
  qed
  finally have a: "fn (PList (map PDict ds)) =
      PList (map (\<lambda>d. PDict (map (\<lambda>(k, v). (fn k, process_keys fn v)) d)) ds)" .
  have b: "map (\<lambda>d. PDict (map (\<lambda>(k, v). (fn k, process_keys fn v)) d)) ds =
           map (\<lambda>d. PDict (map (\<lambda>(k, v). (fn k, v)) d)) ds"
    if "\<forall>d\<in>set ds. \<forall>kv\<in>set d. mapping_free (snd kv)"
  proof (rule map_cong[OF refl])
    fix d assume d: "d \<in> set ds"
    have "map (\<lambda>(k, v). (fn k, process_keys fn v)) d = map (\<lambda>(k, v). (fn k, v)) d"
    proof (rule map_cong[OF refl])
      fix kv assume "kv \<in> set d"
      then have "mapping_free (snd kv)" using that d by blast
      then have "process_keys fn (snd kv) = snd kv" by (rule process_keys_mapping_free)
      then show "(case kv of (k, v) \<Rightarrow> (fn k, process_keys fn v)) =
                 (case kv of (k, v) \<Rightarrow> (fn k, v))"
        by (cases kv) simp
    qed
    then show "PDict (map (\<lambda>(k, v). (fn k, process_keys fn v)) d) =
               PDict (map (\<lambda>(k, v). (fn k, v)) d)" by simp
  qed
  show ?thesis using a b by simp
qed

theorem list_of_mappings_witness:
  "decamelize (PList [PDict [(PStr (lit ''myKey''), PInt 1),
                             (PStr (lit ''otherKey''), PList [PStr (lit ''aB''), PInt 2])],
                      PDict [(PStr (lit ''thirdKey''), PNone)]]) =
     PList [PDict [(PStr (lit ''my_key''), PInt 1),
                   (PStr (lit ''other_key''), PList [PStr (lit ''aB''), PInt 2])],
            PDict [(PStr (lit ''third_key''), PNone)]] \<and>
   camelize (PList [PDict [(PStr (lit ''outer_key''), PDict [(PStr (lit ''inner_key''), PInt 1)]),
                           (PStr (lit ''b_c''), PInt 2)]]) =
     PList [PDict [(PStr (lit ''outerKey''), PDict [(PStr (lit ''innerKey''), PInt 1)]),
                   (PStr (lit ''bC''), PInt 2)]]"
proof -
  let ?ds = "[[(PStr (lit ''myKey''), PInt 1),
               (PStr (lit ''otherKey''), PList [PStr (lit ''aB''), PInt 2])],
              [(PStr (lit ''thirdKey''), PNone)]]"
  let ?es = "[[(PStr (lit ''outer_key''), PDict [(PStr (lit ''inner_key''), PInt 1)]),
               (PStr (lit ''b_c''), PInt 2)]]"
  have h: "\<forall>d\<in>set ?ds. distinct (map (\<lambda>kv. key_norm (decamelize (fst kv))) d)" by code_simp
  have m: "\<forall>d\<in>set ?ds. \<forall>kv\<in>set d. mapping_free (snd kv)" by code_simp
  have g: "\<forall>d\<in>set ?es. distinct (map (\<lambda>kv. key_norm (camelize (fst kv))) d)" by code_simp
  have k: "PList (map (\<lambda>d. PDict (map (\<lambda>(k, v). (decamelize k, v)) d)) ?ds) =
     PList [PDict [(PStr (lit ''my_key''), PInt 1),
                   (PStr (lit ''other_key''), PList [PStr (lit ''aB''), PInt 2])],
            PDict [(PStr (lit ''third_key''), PNone)]]" by code_simp
  have j: "PList (map (\<lambda>d. PDict (map (\<lambda>(k, v). (camelize k, process_keys camelize v)) d)) ?es) =
     PList [PDict [(PStr (lit ''outerKey''), PDict [(PStr (lit ''innerKey''), PInt 1)]),
                   (PStr (lit ''bC''), PInt 2)]]" by code_simp
  have "decamelize (PList (map PDict ?ds)) =
          PList (map (\<lambda>d. PDict (map (\<lambda>(k, v). (decamelize k, v)) d)) ?ds)"
    using list_of_mappings[of decamelize ?ds, OF _ h] m by blast
  moreover have "camelize (PList (map PDict ?es)) =
          PList (map (\<lambda>d. PDict (map (\<lambda>(k, v). (camelize k, process_keys camelize v)) d)) ?es)"
    using list_of_mappings[of camelize ?es, OF _ g] by blast
  ultimately show ?thesis unfolding k j by simp
qed

text \<open>
  C7. A string that consists of uppercase letters only (the letters A to Z among them),
  or of numeric characters only (the digits 0 to 9 among them), is returned unchanged by
  \<^verbatim>\<open>camelize\<close> and by \<^verbatim>\<open>decamelize\<close> (the empty string included).
\<close>

theorem constants_pass_through:
  assumes "(\<forall>c\<in>set s. is_upper c) \<or> (\<forall>c\<in>set s. is_numeric c)"
  shows "camelize (PStr s) = PStr s \<and> decamelize (PStr s) = PStr s"
proof (cases "s = []")
  case True
  then show ?thesis
    by (simp add: camelize_PStr decamelize_PStr camelize_str_Nil decamelize_str_Nil)
next
  case False
  then obtain c where c: "c \<in> set s" by (cases s) auto
  from assms have "py_isupper s \<or> py_isnumeric s"
  proof
    assume a: "\<forall>c\<in>set s. is_upper c"
    then have "py_isupper s" using c upper_not_lower by (auto simp: py_isupper_def list_ex_iff)
    then show ?thesis ..
  next
    assume "\<forall>c\<in>set s. is_numeric c"
    then have "py_isnumeric s" using False by (simp add: py_isnumeric_def list_all_iff)
    then show ?thesis ..
  qed
  then show ?thesis by (simp add: camelize_PStr decamelize_PStr early_out)
qed

theorem constants_pass_through_witness:
  "camelize (PStr (lit ''ABC'')) = PStr (lit ''ABC'') \<and>
   decamelize (PStr (lit ''ABC'')) = PStr (lit ''ABC'') \<and>
   camelize (PStr (lit ''12345'')) = PStr (lit ''12345'') \<and>
   decamelize (PStr (lit ''12345'')) = PStr (lit ''12345'') \<and>
   list_all is_AZ (lit ''ABC'') \<and> list_all is_digit (lit ''12345'')"
proof -
  have a: "(\<forall>c\<in>set (lit ''ABC''). is_upper c) \<or> (\<forall>c\<in>set (lit ''ABC''). is_numeric c)"
    by code_simp
  have b: "(\<forall>c\<in>set (lit ''12345''). is_upper c) \<or> (\<forall>c\<in>set (lit ''12345''). is_numeric c)"
    by code_simp
  have c: "list_all is_AZ (lit ''ABC'') \<and> list_all is_digit (lit ''12345'')"
    by code_simp
  show ?thesis
    using constants_pass_through[OF a] constants_pass_through[OF b] c by simp
qed

text \<open>
  C8, on the code. The docstrings of \<^verbatim>\<open>camelize\<close> and \<^verbatim>\<open>decamelize\<close>
  promise the conversion of a "collection of strings", so the strings of a list should
  be converted. The walk returns what is neither a list nor a mapping as it is, so a
  string in a list is not converted, although the same string passed alone is.
\<close>

theorem strings_in_a_list_untouched:
  "camelize (PList [PStr (lit ''hello_world'')]) = PList [PStr (lit ''hello_world'')] \<and>
   decamelize (PList [PStr (lit ''helloWorld'')]) = PList [PStr (lit ''helloWorld'')] \<and>
   camelize (PStr (lit ''hello_world'')) = PStr (lit ''helloWorld'') \<and>
   decamelize (PStr (lit ''helloWorld'')) = PStr (lit ''hello_world'')"
  by code_simp

text \<open>
  C9, as stated. \<^verbatim>\<open>camelize\<close> can make a string longer: the lower case of U+0130
  (the capital letter I with a dot above) is two code points, \<^verbatim>\<open>i\<close> and U+0307, so
  a string of two characters that starts with it gives three.
\<close>

theorem camelize_longer_counterexample:
  "camelize (PStr [304, 97]) = PStr [105, 775, 97] \<and>
   length [304, 97 :: int] < length [105, 775, 97 :: int]"
  by code_simp

text \<open>
  C9, amended. For every ASCII string \<open>s\<close>, \<^verbatim>\<open>camelize(s)\<close> is a string that is not
  longer than \<open>s\<close>: lower-casing the first character keeps the length, and every
  substitution replaces a run of at least one delimiter and the character after it by
  one character.
\<close>

theorem camelize_ascii_never_longer:
  assumes "ascii s"
  shows "\<exists>t. camelize (PStr s) = PStr t \<and> length t \<le> length s"
  using assms by (simp add: camelize_PStr camelize_str_ascii)

theorem camelize_ascii_never_longer_witness:
  "ascii (lit ''hello_big-world'') \<and>
   (\<exists>t. camelize (PStr (lit ''hello_big-world'')) = PStr t \<and>
        length t \<le> length (lit ''hello_big-world'')) \<and>
   camelize (PStr (lit ''hello_big-world'')) = PStr (lit ''helloBigWorld'')"
proof -
  have a: "ascii (lit ''hello_big-world'')" by code_simp
  have c: "camelize (PStr (lit ''hello_big-world'')) = PStr (lit ''helloBigWorld'')"
    by code_simp
  show ?thesis using camelize_ascii_never_longer[OF a] a c by (intro conjI)
qed



end
